theory Spec2Isabelle
  imports Main "HOL-Library.Word"
begin

unbundle bit_operations_syntax

section \<open>Data model\<close>

text \<open>
  The image pipeline of \<^verbatim>\<open>469_Final.py\<close> works on a two-dimensional numpy array of
  \<^verbatim>\<open>uint8\<close> samples, as \<^verbatim>\<open>cv2.imread(..., IMREAD_GRAYSCALE)\<close> delivers it. A pixel is
  an 8-bit word; an image is the list of its rows. A numpy array is rectangular, which a
  list of lists need not be, so the theorems about whole images carry \<open>rectangular\<close>.
\<close>

type_synonym pixel = "8 word"
type_synonym image = "pixel list list"

definition rows :: "image \<Rightarrow> nat" where
  "rows img = length img"

definition cols :: "image \<Rightarrow> nat" where
  "cols img = (case img of [] \<Rightarrow> 0 | r # _ \<Rightarrow> length r)"

definition rectangular :: "image \<Rightarrow> bool" where
  "rectangular img = list_all (\<lambda>r. length r = cols img) img"

definition shape :: "image \<Rightarrow> nat list" where
  "shape img = map length img"

text \<open>\<^verbatim>\<open>np.zeros_like(image)\<close>: a fresh array of the same shape, all zero.\<close>

definition zeros_like :: "image \<Rightarrow> image" where
  "zeros_like img = replicate (rows img) (replicate (cols img) 0)"

text \<open>The assignment \<^verbatim>\<open>a[i, j] = v\<close>, returning the updated array.\<close>

definition set_pixel :: "image \<Rightarrow> nat \<Rightarrow> nat \<Rightarrow> pixel \<Rightarrow> image" where
  "set_pixel a i j v = a[i := (a ! i)[j := v]]"

section \<open>Adaptive median filter\<close>

text \<open>A Python slice \<^verbatim>\<open>xs[lo:hi]\<close> with \<open>0 \<le> lo\<close>: it clips at the end of the list.\<close>

definition slice :: "nat \<Rightarrow> nat \<Rightarrow> 'a list \<Rightarrow> 'a list" where
  "slice lo hi xs = take (hi - lo) (drop lo xs)"

text \<open>\<^verbatim>\<open>image[i - 1:i + 2, j - 1:j + 2].flatten()\<close>, row by row.\<close>

definition neighborhood_of :: "image \<Rightarrow> nat \<Rightarrow> nat \<Rightarrow> pixel list" where
  "neighborhood_of img i j = concat (map (slice (j - 1) (j + 2)) (slice (i - 1) (i + 2) img))"

text \<open>
  \<^verbatim>\<open>np.min\<close> and \<^verbatim>\<open>np.max\<close> of a non-empty array (numpy raises on an empty one; the
  window of an interior pixel is never empty).
\<close>

definition np_min :: "pixel list \<Rightarrow> pixel" where
  "np_min xs = fold min (tl xs) (hd xs)"

definition np_max :: "pixel list \<Rightarrow> pixel" where
  "np_max xs = fold max (tl xs) (hd xs)"

text \<open>
  \<^verbatim>\<open>np.median\<close> gives a float64: the middle element of the sorted values, or the mean of
  the two middle ones. The only use of the value is the store into the \<^verbatim>\<open>uint8\<close> array
  \<^verbatim>\<open>filtered_image\<close>, which truncates it; \<open>np_median\<close> is the value stored.
\<close>

definition np_median :: "pixel list \<Rightarrow> pixel" where
  "np_median xs =
     (let s = sort xs; n = length s
      in if odd n then s ! (n div 2)
         else word_of_nat ((unat (s ! (n div 2 - 1)) + unat (s ! (n div 2))) div 2))"

text \<open>The body of the inner loop (lines 14 to 23): the value written to \<^verbatim>\<open>filtered_image[i, j]\<close>.\<close>

definition replace_branch :: "image \<Rightarrow> nat \<Rightarrow> nat \<Rightarrow> bool" where
  "replace_branch img i j =
     (let neighborhood = neighborhood_of img i j;
          min_val = np_min neighborhood;
          max_val = np_max neighborhood;
          center_pixel = img ! i ! j
      in center_pixel > max_val \<or> center_pixel < min_val)"

definition amf_pixel :: "image \<Rightarrow> nat \<Rightarrow> nat \<Rightarrow> pixel" where
  "amf_pixel img i j =
     (let neighborhood = neighborhood_of img i j;
          median_val = np_median neighborhood;
          center_pixel = img ! i ! j
      in if replace_branch img i j then median_val else center_pixel)"

text \<open>
  The two loops \<^verbatim>\<open>for i in range(1, rows - 1)\<close>, \<^verbatim>\<open>for j in range(1, cols - 1)\<close> over the
  zero-initialised output. \<^verbatim>\<open>range(1, n - 1)\<close> is empty for \<open>n \<le> 2\<close>, as \<open>[1..<n - 1]\<close> is
  with the truncating subtraction of \<open>nat\<close>.
\<close>

definition adaptive_median_filter :: "image \<Rightarrow> image" where
  "adaptive_median_filter img =
     fold (\<lambda>i filtered_image.
             fold (\<lambda>j filtered_image. set_pixel filtered_image i j (amf_pixel img i j))
                  [1 ..< cols img - 1] filtered_image)
          [1 ..< rows img - 1] (zeros_like img)"

section \<open>Plateau histogram\<close>

text \<open>
  \<^verbatim>\<open>cv2.calcHist([image], [0], None, [256], [0, 256])\<close>, flattened: entry \<open>v\<close> is the number of
  pixels of value \<open>v\<close>. OpenCV delivers the counts as float32 and numpy keeps that type in
  \<^verbatim>\<open>transformed_hist\<close>, \<^verbatim>\<open>Ft\<close> and \<^verbatim>\<open>Dt\<close>. Every value these arrays hold is a whole number,
  and float32 represents whole numbers exactly below \<open>2 ^ 24\<close>. The counts of an image of
  fewer than \<open>2 ^ 24\<close> pixels, the clipped counts and their running sums \<open>Ft\<close> are such
  numbers and are modelled as \<open>int\<close>. The product \<open>255 * Ft\<close> can reach \<open>2 ^ 24\<close> and is
  then rounded: \<open>f32_round\<close> below.
\<close>

definition calcHist :: "image \<Rightarrow> int list" where
  "calcHist img = map (\<lambda>v. int (length (filter (\<lambda>p. unat p = v) (concat img)))) [0 ..< 256]"

text \<open>The loop of lines 32 to 35: the running sum of the indices of the strict local peaks.\<close>

definition peak_step :: "int list \<Rightarrow> nat \<Rightarrow> int \<Rightarrow> int" where
  "peak_step hist i threshold =
     (if hist ! (i - 1) < hist ! i \<and> hist ! i > hist ! (i + 1) then threshold + int i
      else threshold)"

definition peak_loop :: "int list \<Rightarrow> int" where
  "peak_loop hist = fold (peak_step hist) [1 ..< 255] 0"

text \<open>
  \<^verbatim>\<open>int(threshold / 2)\<close>: the true quotient, then truncated towards zero by \<^verbatim>\<open>int\<close>.
\<close>

definition int_half :: "int \<Rightarrow> int" where
  "int_half t = (if 0 \<le> t then t div 2 else - ((- t) div 2))"

definition threshold_of :: "int list \<Rightarrow> int" where
  "threshold_of hist = int_half (peak_loop hist)"

text \<open>
  The specification's words for the bins the threshold sums: a bin from 1 to 254 that is a
  strict local peak of the histogram.
\<close>

definition strict_local_peak :: "int list \<Rightarrow> nat \<Rightarrow> bool" where
  "strict_local_peak hist i = (hist ! (i - 1) < hist ! i \<and> hist ! i > hist ! (i + 1))"

definition peak_bins :: "int list \<Rightarrow> nat set" where
  "peak_bins hist = Set.filter (strict_local_peak hist) {1 .. 254}"

text \<open>The loop of lines 39 to 44: every bin clipped at the threshold.\<close>

definition transformed_hist :: "int list \<Rightarrow> int \<Rightarrow> int list" where
  "transformed_hist hist threshold =
     map (\<lambda>i. if hist ! i > threshold then threshold else hist ! i) [0 ..< 256]"

text \<open>\<^verbatim>\<open>np.cumsum\<close>: the running sums.\<close>

fun cumsum_from :: "int \<Rightarrow> int list \<Rightarrow> int list" where
  "cumsum_from acc [] = []"
| "cumsum_from acc (x # xs) = (acc + x) # cumsum_from (acc + x) xs"

definition cumsum :: "int list \<Rightarrow> int list" where
  "cumsum xs = cumsum_from 0 xs"

definition Ft_of :: "image \<Rightarrow> int list" where
  "Ft_of img =
     (let hist = calcHist img;
          threshold = threshold_of hist
      in cumsum (transformed_hist hist threshold))"

text \<open>\<^verbatim>\<open>max_Ft = Ft[-1]\<close>, the entry of bin 255.\<close>

definition max_Ft_of :: "image \<Rightarrow> int" where
  "max_Ft_of img = last (Ft_of img)"

text \<open>
  The float32 nearest to a whole number \<open>x \<ge> 0\<close>, ties to the even significand, as the
  float32 product \<^verbatim>\<open>255 * Ft\<close> delivers it. A float32 has a significand of 24 bits: with
  \<open>x < 2 ^ (24 + e)\<close> for the least such \<open>e\<close>, the representable neighbours of \<open>x\<close> are the
  multiples of \<open>2 ^ e\<close>.
\<close>

function f32_exponent :: "int \<Rightarrow> nat" where
  "f32_exponent x = (if x < 2 ^ 24 then 0 else Suc (f32_exponent (x div 2)))"
  by pat_completeness auto
termination
  by (relation "measure nat") auto

definition round_half_even :: "nat \<Rightarrow> int \<Rightarrow> int" where
  "round_half_even e x =
     (let u = 2 ^ e; q = x div u; r = x mod u
      in if 2 * r < u then q * u
         else if 2 * r > u then (q + 1) * u
         else if even q then q * u else (q + 1) * u)"

definition f32_round :: "int \<Rightarrow> int" where
  "f32_round x = round_half_even (f32_exponent x) x"

text \<open>
  \<^verbatim>\<open>Dt = (255 * Ft) // max_Ft\<close> is a floor division of float32 arrays, of the rounded
  product by the exact divisor; numpy's quotient of two whole float32 numbers of this size is
  the floor of their exact quotient. numpy raises
  nothing on a zero divisor, it warns and yields \<^verbatim>\<open>nan\<close> for \<open>0 // 0\<close>. When \<open>max_Ft\<close> is 0
  every entry of \<open>Ft\<close> is 0 (lemma \<open>Ft_all_zero\<close> below), so the whole table is
  \<^verbatim>\<open>nan\<close>: \<open>None\<close> stands for that table, \<open>Some Dt\<close> for a table of numbers.
\<close>

definition plateau_histogram :: "image \<Rightarrow> int list option" where
  "plateau_histogram img =
     (let Ft = Ft_of img;
          max_Ft = last Ft
      in if max_Ft = 0 then None else Some (map (\<lambda>f. f32_round (255 * f) div max_Ft) Ft))"

section \<open>Edge sharpening\<close>

text \<open>
  OpenCV's \<^verbatim>\<open>saturate_cast<uchar>\<close>, which \<^verbatim>\<open>cv2.subtract\<close> and \<^verbatim>\<open>cv2.add\<close> apply to the
  exact difference and sum of each pair of samples.
\<close>

definition saturate_cast :: "int \<Rightarrow> pixel" where
  "saturate_cast v = (if v < 0 then 0 else if v > 255 then 255 else word_of_int v)"

definition cv_subtract :: "image \<Rightarrow> image \<Rightarrow> image" where
  "cv_subtract a b = map2 (map2 (\<lambda>x y. saturate_cast (uint x - uint y))) a b"

definition cv_add :: "image \<Rightarrow> image \<Rightarrow> image" where
  "cv_add a b = map2 (map2 (\<lambda>x y. saturate_cast (uint x + uint y))) a b"

text \<open>
  \<^verbatim>\<open>cv2.GaussianBlur(image, (5, 5), 0)\<close> is OpenCV's, not this repository's: it is the
  parameter \<open>GaussianBlur\<close>. OpenCV returns an array of the shape of its input.
\<close>

definition edge_sharpening :: "(image \<Rightarrow> image) \<Rightarrow> image \<Rightarrow> image" where
  "edge_sharpening GaussianBlur img =
     (let smoothed_image = GaussianBlur img;
          difference_image = cv_subtract img smoothed_image;
          sharpened_image = cv_add img difference_image
      in sharpened_image)"

text \<open>
  The specification's words for the two steps, on the numbers the samples stand for:
  a subtraction clipped below at 0 and an addition clipped above at 255.
\<close>

definition saturating_subtract :: "int \<Rightarrow> int \<Rightarrow> int" where
  "saturating_subtract a b = max 0 (a - b)"

definition saturating_add :: "int \<Rightarrow> int \<Rightarrow> int" where
  "saturating_add a b = min 255 (a + b)"

section \<open>Palette optimization\<close>

text \<open>\<^verbatim>\<open>cv2.bitwise_not\<close>: the complement of every sample.\<close>

definition optimize_palette :: "image \<Rightarrow> image" where
  "optimize_palette img = map (map (\<lambda>p. NOT p)) img"

section \<open>The enhancement loop of \<^verbatim>\<open>process_image\<close>\<close>

text \<open>
  \<^verbatim>\<open>enhanced_image[i, j] = plateau_histogram(filtered_image)[filtered_image[i, j]]\<close>: the
  table entry at the sample's value, stored into a \<^verbatim>\<open>uint8\<close> array. A number of the table
  is stored as it is; what the store makes of \<^verbatim>\<open>nan\<close> depends on the platform and is the
  parameter \<open>nan_cast\<close>.
\<close>

definition table_entry :: "pixel \<Rightarrow> int list option \<Rightarrow> pixel \<Rightarrow> pixel" where
  "table_entry nan_cast table p =
     (case table of None \<Rightarrow> nan_cast | Some Dt \<Rightarrow> word_of_int (Dt ! unat p))"

text \<open>Lines 79 to 82: the table is computed again for every pixel.\<close>

definition enhance :: "pixel \<Rightarrow> image \<Rightarrow> image" where
  "enhance nan_cast filtered_image =
     fold (\<lambda>i enhanced_image.
             fold (\<lambda>j enhanced_image.
                     set_pixel enhanced_image i j
                       (table_entry nan_cast (plateau_histogram filtered_image)
                          (filtered_image ! i ! j)))
                  [0 ..< cols filtered_image] enhanced_image)
          [0 ..< rows filtered_image] (zeros_like filtered_image)"

text \<open>
  The specification's variant: the table computed once for the whole image, then one
  look-up per pixel.
\<close>

definition enhance_hoisted :: "pixel \<Rightarrow> image \<Rightarrow> image" where
  "enhance_hoisted nan_cast filtered_image =
     (let Dt = plateau_histogram filtered_image
      in map (map (table_entry nan_cast Dt)) filtered_image)"

section \<open>Arrays written pixel by pixel\<close>

text \<open>
  Both loop nests of the program write \<open>g i j\<close> to position \<open>(i, j)\<close> of an array, for
  \<open>i\<close> and \<open>j\<close> from two ranges, where \<open>g\<close> reads the input and never the array being
  written. The result has the shape of the array at the start, \<open>g i j\<close> at the positions
  visited and the old value elsewhere.
\<close>

lemma length_set_pixel: "length (set_pixel a i j v) = length a"
  by (simp add: set_pixel_def)

lemma length_nth_set_pixel: "length (set_pixel a i j v ! k) = length (a ! k)"
  by (cases "i < length a") (simp_all add: set_pixel_def nth_list_update list_update_beyond)

lemma nth_set_pixel:
  "i' < length a \<Longrightarrow> j' < length (a ! i') \<Longrightarrow>
   set_pixel a i j v ! i' ! j' = (if i' = i \<and> j' = j then v else a ! i' ! j')"
  by (cases "i' = i") (simp_all add: set_pixel_def)

lemma shape_set_pixel: "shape (set_pixel a i j v) = shape a"
  unfolding shape_def
  by (rule nth_equalityI) (simp_all add: length_set_pixel length_nth_set_pixel)

lemma shape_length: "shape a = shape b \<Longrightarrow> length a = length b"
  unfolding shape_def by (rule map_eq_imp_length_eq)

lemma shape_nth: "shape a = shape b \<Longrightarrow> k < length a \<Longrightarrow> length (a ! k) = length (b ! k)"
  unfolding shape_def by (metis length_map nth_map)

lemma shape_col_loop: "shape (fold (\<lambda>j a. set_pixel a i j (g j)) js a) = shape a"
  by (induction js arbitrary: a) (simp_all add: shape_set_pixel)

lemma nth_col_loop:
  "i' < length a \<Longrightarrow> j' < length (a ! i') \<Longrightarrow>
   fold (\<lambda>j a. set_pixel a i j (g j)) js a ! i' ! j' =
     (if i' = i \<and> j' \<in> set js then g j' else a ! i' ! j')"
proof (induction js arbitrary: a)
  case Nil
  then show ?case by simp
next
  case (Cons j js)
  let ?b = "set_pixel a i j (g j)"
  have len: "i' < length ?b" "j' < length (?b ! i')"
    using Cons.prems by (simp_all add: length_set_pixel length_nth_set_pixel)
  have "fold (\<lambda>j a. set_pixel a i j (g j)) (j # js) a ! i' ! j' =
        (if i' = i \<and> j' \<in> set js then g j' else ?b ! i' ! j')"
    using Cons.IH [OF len] by simp
  also have "\<dots> = (if i' = i \<and> j' \<in> set (j # js) then g j' else a ! i' ! j')"
    using Cons.prems by (auto simp: nth_set_pixel)
  finally show ?case .
qed

lemma shape_row_loop:
  "shape (fold (\<lambda>i a. fold (\<lambda>j a. set_pixel a i j (g i j)) js a) rs a) = shape a"
  by (induction rs arbitrary: a) (simp_all add: shape_col_loop)

lemma nth_row_loop:
  "i' < length a \<Longrightarrow> j' < length (a ! i') \<Longrightarrow>
   fold (\<lambda>i a. fold (\<lambda>j a. set_pixel a i j (g i j)) js a) rs a ! i' ! j' =
     (if i' \<in> set rs \<and> j' \<in> set js then g i' j' else a ! i' ! j')"
proof (induction rs arbitrary: a)
  case Nil
  then show ?case by simp
next
  case (Cons r rs)
  let ?b = "fold (\<lambda>j a. set_pixel a r j (g r j)) js a"
  have sh: "shape ?b = shape a" by (rule shape_col_loop)
  have len: "i' < length ?b" "j' < length (?b ! i')"
    using Cons.prems shape_length [OF sh] shape_nth [OF sh] by simp_all
  have "fold (\<lambda>i a. fold (\<lambda>j a. set_pixel a i j (g i j)) js a) (r # rs) a ! i' ! j' =
        (if i' \<in> set rs \<and> j' \<in> set js then g i' j' else ?b ! i' ! j')"
    using Cons.IH [OF len] by simp
  also have "\<dots> = (if i' \<in> set (r # rs) \<and> j' \<in> set js then g i' j' else a ! i' ! j')"
    using Cons.prems by (auto simp: nth_col_loop)
  finally show ?case .
qed

lemma rectangular_nth: "rectangular img \<Longrightarrow> i < rows img \<Longrightarrow> length (img ! i) = cols img"
  by (simp add: rectangular_def rows_def list_all_length)

lemma shape_zeros_like: "rectangular img \<Longrightarrow> shape (zeros_like img) = shape img"
  unfolding shape_def
  by (rule nth_equalityI) (simp_all add: zeros_like_def rows_def rectangular_def list_all_length)

lemma nth_zeros_like: "i < rows img \<Longrightarrow> j < cols img \<Longrightarrow> zeros_like img ! i ! j = 0"
  by (simp add: zeros_like_def)

lemma shape_adaptive_median_filter:
  "rectangular img \<Longrightarrow> shape (adaptive_median_filter img) = shape img"
  by (simp add: adaptive_median_filter_def shape_row_loop shape_zeros_like)

lemma nth_adaptive_median_filter:
  assumes "rectangular img" "i < rows img" "j < cols img"
  shows "adaptive_median_filter img ! i ! j =
           (if 1 \<le> i \<and> i + 1 < rows img \<and> 1 \<le> j \<and> j + 1 < cols img
            then amf_pixel img i j else 0)"
proof -
  have "i < length (zeros_like img)" "j < length (zeros_like img ! i)"
    using assms by (simp_all add: zeros_like_def)
  then show ?thesis
    using assms unfolding adaptive_median_filter_def
    by (simp add: nth_row_loop nth_zeros_like) linarith
qed

section \<open>The adaptive median filter copies the interior\<close>

lemma nth_mem_slice:
  "lo \<le> k \<Longrightarrow> k < hi \<Longrightarrow> k < length xs \<Longrightarrow> xs ! k \<in> set (slice lo hi xs)"
proof -
  assume a: "lo \<le> k" "k < hi" "k < length xs"
  have "k - lo < length (slice lo hi xs)" using a by (simp add: slice_def) arith
  moreover have "slice lo hi xs ! (k - lo) = xs ! k" using a by (simp add: slice_def)
  ultimately show ?thesis by (metis nth_mem)
qed

lemma center_in_neighborhood:
  assumes "i < length img" "j < length (img ! i)"
  shows "img ! i ! j \<in> set (neighborhood_of img i j)"
proof -
  have "img ! i \<in> set (slice (i - 1) (i + 2) img)"
    using assms by (intro nth_mem_slice) simp_all
  moreover have "img ! i ! j \<in> set (slice (j - 1) (j + 2) (img ! i))"
    using assms by (intro nth_mem_slice) simp_all
  ultimately show ?thesis
    unfolding neighborhood_of_def by auto
qed

lemma np_min_le: "x \<in> set xs \<Longrightarrow> np_min xs \<le> x"
proof -
  assume x: "x \<in> set xs"
  then obtain y ys where xs: "xs = y # ys" by (cases xs) auto
  have "np_min xs = Min (set xs)" by (simp add: np_min_def xs Min.set_eq_fold [symmetric])
  then show ?thesis using x by simp
qed

lemma np_max_ge: "x \<in> set xs \<Longrightarrow> x \<le> np_max xs"
proof -
  assume x: "x \<in> set xs"
  then obtain y ys where xs: "xs = y # ys" by (cases xs) auto
  have "np_max xs = Max (set xs)" by (simp add: np_max_def xs Max.set_eq_fold [symmetric])
  then show ?thesis using x by simp
qed

lemma replace_branch_never:
  assumes "i < length img" "j < length (img ! i)"
  shows "\<not> replace_branch img i j"
  using np_min_le [OF center_in_neighborhood [OF assms]]
        np_max_ge [OF center_in_neighborhood [OF assms]]
  by (simp add: replace_branch_def Let_def not_less)

lemma amf_pixel_center:
  "i < length img \<Longrightarrow> j < length (img ! i) \<Longrightarrow> amf_pixel img i j = img ! i ! j"
  by (simp add: amf_pixel_def replace_branch_never)

text \<open>
  Claim C1. For a rectangular image of \<open>H\<close> rows and \<open>W\<close> columns the output of the adaptive
  median filter has the shape of the input; at every interior pixel (rows 1 to \<open>H - 2\<close>,
  columns 1 to \<open>W - 2\<close>) it equals the input and the replace-with-median branch is not taken,
  since the centre is one of the values of its own window; at every border pixel (row 0,
  row \<open>H - 1\<close>, column 0, column \<open>W - 1\<close>) it is 0.
\<close>

theorem adaptive_median_filter_copies_interior:
  assumes "rectangular img"
  shows "shape (adaptive_median_filter img) = shape img \<and>
         (\<forall>i < rows img. \<forall>j < cols img.
            (1 \<le> i \<and> i + 2 \<le> rows img \<and> 1 \<le> j \<and> j + 2 \<le> cols img \<longrightarrow>
               adaptive_median_filter img ! i ! j = img ! i ! j \<and> \<not> replace_branch img i j) \<and>
            (i = 0 \<or> i + 1 = rows img \<or> j = 0 \<or> j + 1 = cols img \<longrightarrow>
               adaptive_median_filter img ! i ! j = 0))"
proof (intro conjI allI impI)
  show "shape (adaptive_median_filter img) = shape img"
    using assms by (rule shape_adaptive_median_filter)
next
  fix i j
  assume ij: "i < rows img" "j < cols img"
  have len: "i < length img" "j < length (img ! i)"
    using ij rectangular_nth [OF assms ij(1)] by (simp_all add: rows_def)
  {
    assume "1 \<le> i \<and> i + 2 \<le> rows img \<and> 1 \<le> j \<and> j + 2 \<le> cols img"
    then show "adaptive_median_filter img ! i ! j = img ! i ! j"
      using nth_adaptive_median_filter [OF assms ij] amf_pixel_center [OF len] by simp
    show "\<not> replace_branch img i j" using len by (rule replace_branch_never)
  }
  {
    assume "i = 0 \<or> i + 1 = rows img \<or> j = 0 \<or> j + 1 = cols img"
    then show "adaptive_median_filter img ! i ! j = 0"
      using nth_adaptive_median_filter [OF assms ij] by auto
  }
qed

theorem adaptive_median_filter_copies_interior_witness:
  "rectangular [[1, 2, 3], [4, 5, 6], [7, 8, 9]] \<and>
   adaptive_median_filter [[1, 2, 3], [4, 5, 6], [7, 8, 9]] ! 1 ! 1 = 5 \<and>
   \<not> replace_branch [[1, 2, 3], [4, 5, 6], [7, 8, 9]] 1 1 \<and>
   adaptive_median_filter [[1, 2, 3], [4, 5, 6], [7, 8, 9]] ! 0 ! 2 = 0"
proof -
  let ?img = "[[1, 2, 3], [4, 5, 6], [7, 8, 9]] :: image"
  have r: "rectangular ?img" by (simp add: rectangular_def cols_def)
  have d: "rows ?img = 3" "cols ?img = 3" by (simp_all add: rows_def cols_def)
  from adaptive_median_filter_copies_interior [OF r] have
    a: "\<forall>i<3. \<forall>j<3.
          (1 \<le> i \<and> i + 2 \<le> 3 \<and> 1 \<le> j \<and> j + 2 \<le> 3 \<longrightarrow>
             adaptive_median_filter ?img ! i ! j = ?img ! i ! j \<and> \<not> replace_branch ?img i j) \<and>
          (i = 0 \<or> i + 1 = 3 \<or> j = 0 \<or> j + 1 = 3 \<longrightarrow>
             adaptive_median_filter ?img ! i ! j = 0)"
    unfolding d by blast
  from a [rule_format, of 1 1] a [rule_format, of 0 2] r show ?thesis by simp
qed

lemma fold_skip: "fold (\<lambda>i. id) rs a = a"
  by (induction rs) simp_all

text \<open>
  Claim C10. For an image with fewer than 3 rows or fewer than 3 columns the adaptive median
  filter returns the zero-initialised output unchanged: the all-zero image of the same shape.
\<close>

theorem adaptive_median_filter_small_image:
  assumes "rows img < 3 \<or> cols img < 3"
  shows "adaptive_median_filter img = zeros_like img"
proof -
  have "[1 ..< rows img - 1] = [] \<or> [1 ..< cols img - 1] = []"
    using assms by auto
  then show ?thesis
  proof
    assume e: "[1 ..< rows img - 1] = []"
    show ?thesis unfolding adaptive_median_filter_def e by simp
  next
    assume e: "[1 ..< cols img - 1] = []"
    show ?thesis unfolding adaptive_median_filter_def e by (simp add: fold_skip)
  qed
qed

theorem adaptive_median_filter_small_image_witness:
  "(rows [[1, 2, 3], [4, 5, 6]] < 3 \<or> cols [[1, 2, 3], [4, 5, 6]] < 3) \<and>
   adaptive_median_filter [[1, 2, 3], [4, 5, 6]] = [[0, 0, 0], [0, 0, 0]]"
proof -
  let ?img = "[[1, 2, 3], [4, 5, 6]] :: image"
  have h: "rows ?img < 3 \<or> cols ?img < 3" by (simp add: rows_def)
  have z: "zeros_like ?img = [[0, 0, 0], [0, 0, 0]]"
    by (simp add: zeros_like_def rows_def cols_def numeral_3_eq_3 numeral_2_eq_2)
  from adaptive_median_filter_small_image [OF h] h z show ?thesis by simp
qed

section \<open>Histogram, threshold and cumulative sum\<close>

lemma length_calcHist: "length (calcHist img) = 256"
  by (simp add: calcHist_def)

lemma nth_calcHist:
  "v < 256 \<Longrightarrow> calcHist img ! v = int (length (filter (\<lambda>p. unat p = v) (concat img)))"
  unfolding calcHist_def by (simp del: upt_Suc)

lemma calcHist_nonneg: "v < 256 \<Longrightarrow> 0 \<le> calcHist img ! v"
  by (simp add: nth_calcHist)

lemma unat_pixel_less: "unat (p :: pixel) < 256"
  using unsigned_less [of p] by simp

lemma calcHist_zero_iff: "(\<forall>v<256. calcHist img ! v = 0) \<longleftrightarrow> concat img = []"
proof
  assume z: "\<forall>v<256. calcHist img ! v = 0"
  show "concat img = []"
  proof (rule ccontr)
    assume "concat img \<noteq> []"
    then obtain p where p: "p \<in> set (concat img)" by (cases "concat img") auto
    have "calcHist img ! unat p = 0" using z unat_pixel_less by blast
    then have "filter (\<lambda>q. unat q = unat p) (concat img) = []"
      by (simp add: nth_calcHist unat_pixel_less)
    then show False using p by (auto simp: filter_empty_conv)
  qed
next
  assume e: "concat img = []"
  show "\<forall>v<256. calcHist img ! v = 0"
  proof (intro allI impI)
    fix v :: nat
    assume "v < 256"
    then have "calcHist img ! v = int (length (filter (\<lambda>p. unat p = v) (concat img)))"
      by (rule nth_calcHist)
    then show "calcHist img ! v = 0" unfolding e by simp
  qed
qed

lemma fold_peak_step:
  "fold (peak_step hist) xs acc =
     acc + sum_list (map (\<lambda>i. if strict_local_peak hist i then int i else 0) xs)"
  by (induction xs arbitrary: acc) (simp_all add: peak_step_def strict_local_peak_def)

lemma peak_loop_sum: "peak_loop hist = (\<Sum>i \<in> peak_bins hist. int i)"
proof -
  have "peak_loop hist =
          (\<Sum>i \<in> {1 ..< 255}. if strict_local_peak hist i then int i else 0)"
    unfolding peak_loop_def fold_peak_step
    by (simp add: interv_sum_list_conv_sum_set_nat del: upt_Suc)
  also have "{1 ..< 255 :: nat} = {1 .. 254}" by auto
  also have "(\<Sum>i \<in> {1 .. 254}. if strict_local_peak hist i then int i else 0) =
             (\<Sum>i \<in> {i \<in> {1 .. 254}. strict_local_peak hist i}. int i)"
    by (rule sum.inter_filter [symmetric]) simp
  also have "{i \<in> {1 .. 254}. strict_local_peak hist i} = peak_bins hist"
    by (auto simp: peak_bins_def)
  finally show ?thesis .
qed

lemma peak_loop_nonneg: "0 \<le> peak_loop hist"
  unfolding peak_loop_sum by (rule sum_nonneg) simp

lemma threshold_of_nonneg: "0 \<le> threshold_of hist"
  using peak_loop_nonneg [of hist] by (simp add: threshold_of_def int_half_def)

text \<open>
  Claim C5. The threshold of \<^verbatim>\<open>plateau_histogram\<close> is the sum of the indices of the bins
  from 1 to 254 at which the histogram has a strict local peak, divided by 2 with integer
  division; bins 0 and 255 are never among them.
\<close>

theorem threshold_is_half_peak_sum:
  "threshold_of (calcHist img) = (\<Sum>i \<in> peak_bins (calcHist img). int i) div 2 \<and>
   0 \<notin> peak_bins (calcHist img) \<and> 255 \<notin> peak_bins (calcHist img)"
  using peak_loop_nonneg [of "calcHist img"]
  by (simp add: threshold_of_def int_half_def peak_loop_sum peak_bins_def)

lemma length_cumsum_from: "length (cumsum_from acc xs) = length xs"
  by (induction xs arbitrary: acc) simp_all

lemma nth_cumsum_from:
  "i < length xs \<Longrightarrow> cumsum_from acc xs ! i = acc + sum_list (take (Suc i) xs)"
proof (induction xs arbitrary: acc i)
  case Nil
  then show ?case by simp
next
  case (Cons x xs)
  then show ?case by (cases i) simp_all
qed

lemma length_cumsum: "length (cumsum xs) = length xs"
  by (simp add: cumsum_def length_cumsum_from)

lemma nth_cumsum: "i < length xs \<Longrightarrow> cumsum xs ! i = sum_list (take (Suc i) xs)"
  by (simp add: cumsum_def nth_cumsum_from)

lemma last_cumsum: "xs \<noteq> [] \<Longrightarrow> last (cumsum xs) = sum_list xs"
proof -
  assume ne: "xs \<noteq> []"
  then have "cumsum xs \<noteq> []" using length_cumsum [of xs] by auto
  then have "last (cumsum xs) = cumsum xs ! (length xs - 1)"
    by (simp add: last_conv_nth length_cumsum)
  also have "\<dots> = sum_list (take (Suc (length xs - 1)) xs)"
    using ne by (intro nth_cumsum) simp
  finally show ?thesis using ne by simp
qed

lemma cumsum_nonneg:
  assumes "\<forall>x \<in> set xs. 0 \<le> x" "i < length xs"
  shows "0 \<le> cumsum xs ! i"
proof -
  have "\<forall>x \<in> set (take (Suc i) xs). 0 \<le> x" using assms(1) by (meson in_set_takeD)
  then show ?thesis using assms(2) by (simp add: nth_cumsum sum_list_nonneg)
qed

lemma cumsum_le_total:
  assumes "\<forall>x \<in> set xs. 0 \<le> x" "i < length xs"
  shows "cumsum xs ! i \<le> sum_list xs"
proof -
  have "sum_list xs = sum_list (take (Suc i) xs) + sum_list (drop (Suc i) xs)"
    by (metis append_take_drop_id sum_list_append)
  moreover have "0 \<le> sum_list (drop (Suc i) xs)"
    using assms(1) by (intro sum_list_nonneg) (meson in_set_dropD)
  ultimately show ?thesis using assms(2) by (simp add: nth_cumsum)
qed

lemma cumsum_step:
  assumes "Suc i < length xs"
  shows "cumsum xs ! Suc i = cumsum xs ! i + xs ! Suc i"
  using assms by (simp add: nth_cumsum take_Suc_conv_app_nth [of "Suc i"])

lemma length_transformed_hist: "length (transformed_hist hist t) = 256"
  by (simp add: transformed_hist_def)

lemma nth_transformed_hist:
  "i < 256 \<Longrightarrow> transformed_hist hist t ! i = (if hist ! i > t then t else hist ! i)"
  unfolding transformed_hist_def by (simp del: upt_Suc)

lemma transformed_hist_nonneg:
  assumes "0 \<le> t" "\<forall>i<256. 0 \<le> hist ! i"
  shows "\<forall>x \<in> set (transformed_hist hist t). 0 \<le> x"
  using assms by (simp add: all_set_conv_all_nth length_transformed_hist nth_transformed_hist)

lemma transformed_hist_zero_iff:
  assumes "0 \<le> t" "\<forall>i<256. 0 \<le> hist ! i"
  shows "(\<forall>x \<in> set (transformed_hist hist t). x = 0) \<longleftrightarrow> (t = 0 \<or> (\<forall>i<256. hist ! i = 0))"
proof -
  have "(\<forall>x \<in> set (transformed_hist hist t). x = 0) \<longleftrightarrow>
        (\<forall>i<256. (if hist ! i > t then t else hist ! i) = 0)"
    by (simp add: all_set_conv_all_nth length_transformed_hist nth_transformed_hist)
  also have "\<dots> \<longleftrightarrow> (t = 0 \<or> (\<forall>i<256. hist ! i = 0))"
    using assms by (auto split: if_splits)
  finally show ?thesis .
qed

lemma length_Ft_of: "length (Ft_of img) = 256"
  by (simp add: Ft_of_def Let_def length_cumsum length_transformed_hist)

lemma clipped_nonneg:
  "\<forall>x \<in> set (transformed_hist (calcHist img) (threshold_of (calcHist img))). 0 \<le> x"
  by (rule transformed_hist_nonneg) (simp_all add: threshold_of_nonneg calcHist_nonneg)

lemma max_Ft_of_total:
  "max_Ft_of img = sum_list (transformed_hist (calcHist img) (threshold_of (calcHist img)))"
proof -
  have "transformed_hist (calcHist img) (threshold_of (calcHist img)) \<noteq> []"
    using length_transformed_hist [of "calcHist img" "threshold_of (calcHist img)"] by auto
  then show ?thesis by (simp add: max_Ft_of_def Ft_of_def Let_def last_cumsum)
qed

lemma max_Ft_of_zero_iff:
  "max_Ft_of img = 0 \<longleftrightarrow> threshold_of (calcHist img) = 0 \<or> concat img = []"
proof -
  let ?h = "calcHist img"
  let ?t = "threshold_of ?h"
  have "max_Ft_of img = 0 \<longleftrightarrow> (\<forall>x \<in> set (transformed_hist ?h ?t). x = 0)"
    unfolding max_Ft_of_total using clipped_nonneg [of img]
    by (intro sum_list_nonneg_eq_0_iff) simp
  also have "\<dots> \<longleftrightarrow> (?t = 0 \<or> (\<forall>i<256. ?h ! i = 0))"
    by (rule transformed_hist_zero_iff) (simp_all add: threshold_of_nonneg calcHist_nonneg)
  finally show ?thesis by (simp only: calcHist_zero_iff)
qed

lemma Ft_of_nonneg: "i < 256 \<Longrightarrow> 0 \<le> Ft_of img ! i"
  unfolding Ft_of_def Let_def
  by (rule cumsum_nonneg [OF clipped_nonneg]) (simp add: length_transformed_hist)

lemma Ft_of_le_max: "i < 256 \<Longrightarrow> Ft_of img ! i \<le> max_Ft_of img"
  unfolding max_Ft_of_total unfolding Ft_of_def Let_def
  by (rule cumsum_le_total [OF clipped_nonneg]) (simp add: length_transformed_hist)

lemma Ft_of_step: "i < 255 \<Longrightarrow> Ft_of img ! i \<le> Ft_of img ! (i + 1)"
proof -
  let ?c = "transformed_hist (calcHist img) (threshold_of (calcHist img))"
  assume i: "i < 255"
  then have s: "Suc i < length ?c" by (simp add: length_transformed_hist)
  then have "0 \<le> ?c ! Suc i" using clipped_nonneg [of img] nth_mem by blast
  then show ?thesis using cumsum_step [OF s] by (simp add: Ft_of_def Let_def)
qed

lemma Ft_all_zero: "max_Ft_of img = 0 \<Longrightarrow> i < 256 \<Longrightarrow> Ft_of img ! i = 0"
  using Ft_of_nonneg [of i img] Ft_of_le_max [of i img] by simp

lemma plateau_histogram_None_iff: "plateau_histogram img = None \<longleftrightarrow> max_Ft_of img = 0"
  by (simp add: plateau_histogram_def max_Ft_of_def Let_def)

lemma plateau_histogram_Some:
  "max_Ft_of img \<noteq> 0 \<Longrightarrow>
   plateau_histogram img = Some (map (\<lambda>f. f32_round (255 * f) div max_Ft_of img) (Ft_of img))"
  by (simp add: plateau_histogram_def max_Ft_of_def Let_def)

text \<open>
  Rounding to float32 is exact below \<open>2 ^ 24\<close>, monotone, and off by at most one part in
  \<open>2 ^ 24\<close>.
\<close>

declare f32_exponent.simps [simp del]

lemma f32_exponent_small: "x < 2 ^ 24 \<Longrightarrow> f32_exponent x = 0"
  by (simp add: f32_exponent.simps)

lemma f32_exponent_upper: "x < 2 ^ (24 + f32_exponent x)"
proof (induction x rule: f32_exponent.induct)
  case (1 x)
  show ?case
  proof (cases "x < 2 ^ 24")
    case True
    then show ?thesis by (simp add: f32_exponent_small)
  next
    case False
    then have e: "f32_exponent x = Suc (f32_exponent (x div 2))"
      by (subst f32_exponent.simps) simp
    have "x div 2 < 2 ^ (24 + f32_exponent (x div 2))" using "1.IH" False by simp
    then have "x < 2 * 2 ^ (24 + f32_exponent (x div 2))" by linarith
    moreover have "(2::int) ^ (24 + f32_exponent x) = 2 * 2 ^ (24 + f32_exponent (x div 2))"
      by (simp only: e add_Suc_right power_Suc)
    ultimately show ?thesis by simp
  qed
qed

lemma f32_exponent_lower: "0 < f32_exponent x \<Longrightarrow> 2 ^ (23 + f32_exponent x) \<le> x"
proof (induction x rule: f32_exponent.induct)
  case (1 x)
  show ?case
  proof (cases "x < 2 ^ 24")
    case True
    then show ?thesis using "1.prems" by (simp add: f32_exponent_small)
  next
    case False
    then have e: "f32_exponent x = Suc (f32_exponent (x div 2))"
      by (subst f32_exponent.simps) simp
    show ?thesis
    proof (cases "0 < f32_exponent (x div 2)")
      case True
      then have "2 ^ (23 + f32_exponent (x div 2)) \<le> x div 2" using "1.IH" False by simp
      then have "2 * 2 ^ (23 + f32_exponent (x div 2)) \<le> x" by linarith
      moreover have "(2::int) ^ (23 + f32_exponent x) = 2 * 2 ^ (23 + f32_exponent (x div 2))"
        by (simp only: e add_Suc_right power_Suc)
      ultimately show ?thesis by simp
    next
      case z: False
      then show ?thesis using False by (simp add: e)
    qed
  qed
qed

lemma f32_exponent_mono: "a \<le> b \<Longrightarrow> f32_exponent a \<le> f32_exponent b"
proof (rule ccontr)
  assume ab: "a \<le> b" and "\<not> f32_exponent a \<le> f32_exponent b"
  then have lt: "f32_exponent b < f32_exponent a" by simp
  then have "(2::int) ^ (24 + f32_exponent b) \<le> 2 ^ (23 + f32_exponent a)"
    by (intro power_increasing) simp_all
  moreover have "2 ^ (23 + f32_exponent a) \<le> a" using lt by (intro f32_exponent_lower) simp
  moreover have "b < 2 ^ (24 + f32_exponent b)" by (rule f32_exponent_upper)
  ultimately show False using ab by linarith
qed

lemma round_half_even_cases:
  "round_half_even e x = (x div 2 ^ e) * 2 ^ e \<and> 2 * (x mod 2 ^ e) \<le> 2 ^ e \<or>
   round_half_even e x = (x div 2 ^ e + 1) * 2 ^ e \<and> 2 ^ e \<le> 2 * (x mod 2 ^ e)"
  by (simp add: round_half_even_def Let_def)

lemma round_half_even_lower: "(x div 2 ^ e) * 2 ^ e \<le> round_half_even e x"
  using round_half_even_cases [where e = e and x = x] by auto

lemma round_half_even_upper: "round_half_even e x \<le> (x div 2 ^ e + 1) * 2 ^ e"
  using round_half_even_cases [where e = e and x = x] by auto

lemma round_half_even_multiple: "round_half_even e (k * 2 ^ e) = k * 2 ^ e"
  by (simp add: round_half_even_def Let_def)

lemma round_half_even_mono:
  assumes "a \<le> b"
  shows "round_half_even e a \<le> round_half_even e b"
proof (cases "a div 2 ^ e < b div 2 ^ e")
  case True
  then have "(a div 2 ^ e + 1) * 2 ^ e \<le> (b div 2 ^ e) * 2 ^ e"
    by (intro mult_right_mono) simp_all
  then show ?thesis
    using round_half_even_upper [where e = e and x = a]
          round_half_even_lower [where e = e and x = b] by linarith
next
  case False
  have "a div 2 ^ e \<le> b div 2 ^ e" using assms by (intro zdiv_mono1) simp_all
  with False have q: "a div 2 ^ e = b div 2 ^ e" by simp
  have "a = (a div 2 ^ e) * 2 ^ e + a mod 2 ^ e" "b = (b div 2 ^ e) * 2 ^ e + b mod 2 ^ e"
    by (rule div_mult_mod_eq [symmetric])+
  then have "a mod 2 ^ e \<le> b mod 2 ^ e" using assms q by (metis add_le_cancel_left)
  then show ?thesis
    by (simp add: round_half_even_def Let_def q)
qed

lemma round_half_even_error: "2 * round_half_even e x \<le> 2 * x + 2 ^ e"
proof -
  have n: "x = (x div 2 ^ e) * 2 ^ e + x mod 2 ^ e" by (rule div_mult_mod_eq [symmetric])
  from round_half_even_cases [where e = e and x = x] show ?thesis
  proof
    assume "round_half_even e x = (x div 2 ^ e) * 2 ^ e \<and> 2 * (x mod 2 ^ e) \<le> 2 ^ e"
    moreover have "0 \<le> x mod 2 ^ e" by simp
    ultimately show ?thesis using n by linarith
  next
    assume a: "round_half_even e x = (x div 2 ^ e + 1) * 2 ^ e \<and> 2 ^ e \<le> 2 * (x mod 2 ^ e)"
    then have "round_half_even e x = (x div 2 ^ e) * 2 ^ e + 2 ^ e" by (simp add: algebra_simps)
    then show ?thesis using n a by linarith
  qed
qed

lemma f32_round_exact: "x < 2 ^ 24 \<Longrightarrow> f32_round x = x"
  by (simp add: f32_round_def f32_exponent_small round_half_even_def)

lemma f32_round_mono:
  assumes "a \<le> b"
  shows "f32_round a \<le> f32_round b"
proof (cases "f32_exponent a = f32_exponent b")
  case True
  then show ?thesis using round_half_even_mono [OF assms] by (simp add: f32_round_def)
next
  case False
  let ?ea = "f32_exponent a"
  let ?eb = "f32_exponent b"
  from False f32_exponent_mono [OF assms] have lt: "?ea < ?eb" by simp
  have "a \<le> 2 ^ 24 * 2 ^ ?ea" using f32_exponent_upper [of a] by (simp add: power_add)
  then have "round_half_even ?ea a \<le> round_half_even ?ea (2 ^ 24 * 2 ^ ?ea)"
    by (rule round_half_even_mono)
  then have 1: "round_half_even ?ea a \<le> 2 ^ (24 + ?ea)"
    by (simp add: round_half_even_multiple power_add)
  have "(2::int) ^ (24 + ?ea) \<le> 2 ^ (23 + ?eb)" using lt by (intro power_increasing) simp_all
  then have 2: "(2::int) ^ (24 + ?ea) \<le> 2 ^ 23 * 2 ^ ?eb" by (simp add: power_add)
  have "2 ^ 23 * 2 ^ ?eb \<le> b" using f32_exponent_lower [of b] lt by (simp add: power_add)
  then have "round_half_even ?eb (2 ^ 23 * 2 ^ ?eb) \<le> round_half_even ?eb b"
    by (rule round_half_even_mono)
  then have 3: "2 ^ 23 * 2 ^ ?eb \<le> round_half_even ?eb b"
    by (simp add: round_half_even_multiple)
  from 1 2 3 show ?thesis by (simp add: f32_round_def)
qed

lemma f32_round_error:
  assumes "0 \<le> x"
  shows "2 ^ 24 * f32_round x \<le> 2 ^ 24 * x + x"
proof (cases "f32_exponent x = 0")
  case True
  then show ?thesis using assms by (simp add: f32_round_def round_half_even_def)
next
  case False
  let ?e = "f32_exponent x"
  have "2 ^ (23 + ?e) \<le> x" using False by (intro f32_exponent_lower) simp
  then have l: "2 ^ 23 * 2 ^ ?e \<le> x" by (simp add: power_add)
  have "2 * round_half_even ?e x \<le> 2 * x + 2 ^ ?e" by (rule round_half_even_error)
  then have "2 ^ 23 * (2 * round_half_even ?e x) \<le> 2 ^ 23 * (2 * x + 2 ^ ?e)"
    by (rule mult_left_mono) simp
  then have "2 ^ 24 * round_half_even ?e x \<le> 2 ^ 24 * x + 2 ^ 23 * 2 ^ ?e"
    by (simp add: algebra_simps)
  then show ?thesis using l by (simp add: f32_round_def)
qed

lemma f32_round_nonneg: "0 \<le> x \<Longrightarrow> 0 \<le> f32_round x"
proof -
  assume "0 \<le> x"
  then have "0 \<le> (x div 2 ^ f32_exponent x) * 2 ^ f32_exponent x"
    by (simp add: pos_imp_zdiv_nonneg_iff)
  then show ?thesis
    using round_half_even_lower [where e = "f32_exponent x" and x = x]
    by (simp add: f32_round_def)
qed

lemma scaled_bounds:
  fixes f m :: int
  assumes "0 \<le> f" "f \<le> m" "0 < m"
  shows "0 \<le> f32_round (255 * f) div m" "f32_round (255 * f) div m \<le> 255"
proof -
  let ?r = "f32_round (255 * f)"
  have "0 \<le> ?r" using assms(1) by (intro f32_round_nonneg) simp
  then show "0 \<le> ?r div m" using assms(3) by (simp add: pos_imp_zdiv_nonneg_iff)
  have "?r \<le> f32_round (255 * m)" using assms(2) by (intro f32_round_mono) simp
  moreover have "2 ^ 24 * f32_round (255 * m) \<le> 2 ^ 24 * (255 * m) + 255 * m"
    using assms(3) by (intro f32_round_error) simp
  ultimately have lt: "?r < 256 * m" using assms(3) by simp
  have "m * (?r div m) \<le> ?r"
  proof -
    have "?r = m * (?r div m) + ?r mod m" by (rule mult_div_mod_eq [symmetric])
    moreover have "0 \<le> ?r mod m" using assms(3) by (rule pos_mod_sign)
    ultimately show ?thesis by linarith
  qed
  with lt have "m * (?r div m) < m * 256" by simp
  then have "?r div m < 256" using assms(3) by (simp add: mult_less_cancel_left_pos)
  then show "?r div m \<le> 255" by simp
qed

text \<open>
  The rounding shows in the table: with \<open>Ft[255] = 66167\<close> the product \<open>255 * 66167 = 16872585\<close>
  is rounded to \<open>16872584\<close>, and the last entry of the table is 254, not 255.
\<close>

lemma f32_rounding_visible: "f32_round (255 * 66167) div 66167 = 254"
  by code_simp

text \<open>
  Claim C2, as stated, says that \<open>Ft[255]\<close> is non-zero for every image with at
  least one pixel. It is not: the 1 by 1 image of value 0 has no strict local peak, so its
  threshold is 0, every bin is clipped to 0 and \<open>Ft[255] = 0\<close>.
\<close>

theorem max_Ft_zero_on_nonempty_image: "concat [[0 :: pixel]] \<noteq> [] \<and> max_Ft_of [[0]] = 0"
  by code_simp

text \<open>
  Claim C2, amended. \<open>Ft[255]\<close> is non-zero exactly when the image has at least one pixel
  and the threshold is positive; the division \<^verbatim>\<open>(255 * Ft) // max_Ft\<close> has a zero divisor, and
  the table is \<^verbatim>\<open>nan\<close>, exactly when \<open>Ft[255] = 0\<close>.
\<close>

theorem max_Ft_nonzero_iff:
  "(max_Ft_of img \<noteq> 0 \<longleftrightarrow> concat img \<noteq> [] \<and> 0 < threshold_of (calcHist img)) \<and>
   (plateau_histogram img = None \<longleftrightarrow> max_Ft_of img = 0)"
  using threshold_of_nonneg [of "calcHist img"]
  by (auto simp: max_Ft_of_zero_iff plateau_histogram_None_iff)

theorem max_Ft_nonzero_iff_witness:
  "max_Ft_of [[0, 5, 0]] \<noteq> 0 \<and> concat [[0 :: pixel, 5, 0]] \<noteq> [] \<and> 0 < threshold_of (calcHist [[0, 5, 0]])"
proof -
  have "0 < threshold_of (calcHist [[0, 5, 0]])" by code_simp
  then show ?thesis using max_Ft_nonzero_iff [of "[[0, 5, 0]]"] by simp
qed

text \<open>
  Claim C4, as stated for any image, fails where the divisor is 0: the image with the two
  pixels 7 and 8 has two equal neighbouring bins and no strict local peak, so the table is
  \<^verbatim>\<open>nan\<close> and no entry lies in \<open>[0, 255]\<close>.
\<close>

theorem remap_table_nan_without_peak: "plateau_histogram [[7, 8]] = None"
  by code_simp

text \<open>
  Claim C4, amended. For any image with \<open>Ft[255] \<noteq> 0\<close> the remap table has 256 entries;
  entry \<open>i\<close> is the float32 product \<open>255 * Ft[i]\<close> floor-divided by \<open>Ft[255]\<close>, which is the
  exact \<open>255 * Ft[i]\<close> floor-divided by \<open>Ft[255]\<close> where that product is below \<open>2 ^ 24\<close>;
  every entry lies in \<open>[0, 255]\<close>, and the table is non-decreasing in the bin index.
\<close>

theorem remap_table_range_monotone:
  assumes "max_Ft_of img \<noteq> 0"
  shows "\<exists>Dt. plateau_histogram img = Some Dt \<and> length Dt = 256 \<and>
           (\<forall>i<256. Dt ! i = f32_round (255 * Ft_of img ! i) div max_Ft_of img \<and>
                     (255 * Ft_of img ! i < 2 ^ 24 \<longrightarrow>
                        Dt ! i = (255 * Ft_of img ! i) div max_Ft_of img) \<and>
                     0 \<le> Dt ! i \<and> Dt ! i \<le> 255) \<and>
           (\<forall>i<255. Dt ! i \<le> Dt ! (i + 1))"
proof -
  let ?Dt = "map (\<lambda>f. f32_round (255 * f) div max_Ft_of img) (Ft_of img)"
  have pos: "0 < max_Ft_of img"
    using assms Ft_of_nonneg [of 255 img] Ft_of_le_max [of 255 img] by simp
  have nth: "?Dt ! i = f32_round (255 * Ft_of img ! i) div max_Ft_of img" if "i < 256" for i
    using that by (simp add: length_Ft_of)
  have exact: "?Dt ! i = (255 * Ft_of img ! i) div max_Ft_of img"
    if "i < 256" "255 * Ft_of img ! i < 2 ^ 24" for i
    using nth [OF that(1)] f32_round_exact [OF that(2)] by simp
  have rng: "0 \<le> ?Dt ! i \<and> ?Dt ! i \<le> 255" if "i < 256" for i
    unfolding nth [OF that]
    using scaled_bounds [OF Ft_of_nonneg [OF that] Ft_of_le_max [OF that] pos] by simp
  have mono: "?Dt ! i \<le> ?Dt ! (i + 1)" if "i < 255" for i
  proof -
    have "255 * Ft_of img ! i \<le> 255 * Ft_of img ! (i + 1)"
      using Ft_of_step [OF that] by simp
    then have "f32_round (255 * Ft_of img ! i) \<le> f32_round (255 * Ft_of img ! (i + 1))"
      by (rule f32_round_mono)
    then have "f32_round (255 * Ft_of img ! i) div max_Ft_of img
               \<le> f32_round (255 * Ft_of img ! (i + 1)) div max_Ft_of img"
      using pos by (rule zdiv_mono1)
    then show ?thesis using that by (simp add: nth)
  qed
  have "plateau_histogram img = Some ?Dt" using assms by (rule plateau_histogram_Some)
  moreover have "length ?Dt = 256" by (simp add: length_Ft_of)
  ultimately show ?thesis using nth exact rng mono by blast
qed

theorem remap_table_range_monotone_witness:
  "max_Ft_of [[0, 5, 0]] \<noteq> 0 \<and>
   length (the (plateau_histogram [[0, 5, 0]])) = 256 \<and>
   the (plateau_histogram [[0, 5, 0]]) ! 4 = (255 * Ft_of [[0, 5, 0]] ! 4) div max_Ft_of [[0, 5, 0]] \<and>
   0 \<le> the (plateau_histogram [[0, 5, 0]]) ! 4 \<and>
   the (plateau_histogram [[0, 5, 0]]) ! 4 \<le> the (plateau_histogram [[0, 5, 0]]) ! 5 \<and>
   the (plateau_histogram [[0, 5, 0]]) ! 5 \<le> 255"
proof -
  have h: "max_Ft_of [[0, 5, 0]] \<noteq> 0" by code_simp
  have b: "255 * Ft_of [[0, 5, 0]] ! 4 < 2 ^ 24" by code_simp
  from remap_table_range_monotone [OF h] obtain Dt where
    s: "plateau_histogram [[0, 5, 0]] = Some Dt" and l: "length Dt = 256" and
    r: "\<forall>i<256. Dt ! i = f32_round (255 * Ft_of [[0, 5, 0]] ! i) div max_Ft_of [[0, 5, 0]] \<and>
                 (255 * Ft_of [[0, 5, 0]] ! i < 2 ^ 24 \<longrightarrow>
                    Dt ! i = (255 * Ft_of [[0, 5, 0]] ! i) div max_Ft_of [[0, 5, 0]]) \<and>
                 0 \<le> Dt ! i \<and> Dt ! i \<le> 255" and
    m: "\<forall>i<255. Dt ! i \<le> Dt ! (i + 1)"
    by blast
  from r [rule_format, of 4] r [rule_format, of 5] m [rule_format, of 4] h b s l
  show ?thesis by simp
qed

section \<open>The uniform 5 by 5 image of value 128\<close>

lemma u5_amf:
  "adaptive_median_filter (replicate 5 (replicate 5 128)) =
     [[0, 0, 0, 0, 0], [0, 128, 128, 128, 0], [0, 128, 128, 128, 0], [0, 128, 128, 128, 0],
      [0, 0, 0, 0, 0]]"
  by code_simp

lemma u5_threshold: "threshold_of (calcHist (replicate 5 (replicate 5 128))) = 64"
  by code_simp

lemma u5_clipped:
  "transformed_hist (calcHist (replicate 5 (replicate 5 128))) 64 =
     replicate 128 0 @ [25] @ replicate 127 0"
  by code_simp

lemma u5_Ft: "Ft_of (replicate 5 (replicate 5 128)) = replicate 128 0 @ replicate 128 25"
  by code_simp

lemma u5_Dt:
  "plateau_histogram (replicate 5 (replicate 5 128)) = Some (replicate 128 0 @ replicate 128 255)"
  by code_simp

text \<open>
  Claim C3, as stated, has the plateau stage compute threshold 0 and clip the occupied bin
  to 0 on the constant image. The code does neither: bin 128 is a strict local peak between
  two empty bins, so the threshold is \<open>128 div 2 = 64\<close> and the count 25 of bin 128 is kept.
\<close>

theorem uniform_128_threshold_not_zero:
  "threshold_of (calcHist (replicate 5 (replicate 5 128))) \<noteq> 0 \<and>
   transformed_hist (calcHist (replicate 5 (replicate 5 128)))
       (threshold_of (calcHist (replicate 5 (replicate 5 128)))) ! 128 \<noteq> 0"
  by (simp only: u5_threshold u5_clipped) (simp add: nth_append)

text \<open>
  Claim C3, amended. For the uniform 5 by 5 image of value 128 the adaptive median filter
  leaves the interior at 128 and the border at 0; the plateau stage applied to the constant
  image computes threshold 64 and keeps the count 25 of bin 128, so \<open>Ft\<close> is 0 below bin 128
  and 25 from bin 128 on, and the remap table maps 128 to 255 and the values 0 to 127 to 0.
\<close>

theorem uniform_128_scenario:
  "adaptive_median_filter (replicate 5 (replicate 5 128)) =
     [[0, 0, 0, 0, 0], [0, 128, 128, 128, 0], [0, 128, 128, 128, 0], [0, 128, 128, 128, 0],
      [0, 0, 0, 0, 0]] \<and>
   threshold_of (calcHist (replicate 5 (replicate 5 128))) = 64 \<and>
   transformed_hist (calcHist (replicate 5 (replicate 5 128)))
       (threshold_of (calcHist (replicate 5 (replicate 5 128)))) =
     replicate 128 0 @ [25] @ replicate 127 0 \<and>
   Ft_of (replicate 5 (replicate 5 128)) = replicate 128 0 @ replicate 128 25 \<and>
   plateau_histogram (replicate 5 (replicate 5 128)) =
     Some (replicate 128 0 @ replicate 128 255)"
  by (simp only: u5_amf u5_threshold u5_clipped u5_Ft u5_Dt simp_thms)

section \<open>Edge sharpening saturates\<close>

lemma uint_saturate_cast: "uint (saturate_cast v) = max 0 (min 255 v)"
  by (simp add: saturate_cast_def uint_word_of_int take_bit_eq_mod)

lemma uint_pixel_le: "uint (p :: pixel) \<le> 255"
  using uint_bounded [of p] by simp

lemma nth_map2_rows:
  "i < length a \<Longrightarrow> i < length b \<Longrightarrow> j < length (a ! i) \<Longrightarrow> j < length (b ! i) \<Longrightarrow>
   map2 (map2 f) a b ! i ! j = f (a ! i ! j) (b ! i ! j)"
  by simp

lemma shape_map2_rows:
  assumes "shape a = shape b"
  shows "shape (map2 (map2 f) a b) = shape a"
proof -
  have l: "length a = length b" using assms by (rule shape_length)
  have n: "length (a ! k) = length (b ! k)" if "k < length a" for k
    using assms that by (rule shape_nth)
  show ?thesis
    unfolding shape_def
  proof (rule nth_equalityI)
    show "length (map length (map2 (map2 f) a b)) = length (map length a)"
      using l by simp
  next
    fix i
    assume "i < length (map length (map2 (map2 f) a b))"
    then have i: "i < length a" "i < length b" using l by simp_all
    then show "map length (map2 (map2 f) a b) ! i = map length a ! i"
      using n [OF i(1)] by simp
  qed
qed

lemma saturate_twice:
  fixes a b :: int
  assumes "0 \<le> a" "a \<le> 255" "0 \<le> b"
  shows "max 0 (min 255 (a + max 0 (min 255 (a - b)))) = min 255 (a + max 0 (a - b))"
  using assms by (simp add: min_def max_def)

lemma shape_edge_sharpening:
  "shape (GaussianBlur img) = shape img \<Longrightarrow> shape (edge_sharpening GaussianBlur img) = shape img"
  by (simp add: edge_sharpening_def Let_def cv_add_def cv_subtract_def shape_map2_rows)

lemma uint_edge_sharpening:
  assumes "shape (GaussianBlur img) = shape img" "i < length img" "j < length (img ! i)"
  shows "uint (edge_sharpening GaussianBlur img ! i ! j) =
           min 255 (uint (img ! i ! j) +
                    max 0 (uint (img ! i ! j) - uint (GaussianBlur img ! i ! j)))"
proof -
  let ?b = "GaussianBlur img"
  let ?d = "cv_subtract img ?b"
  have lb: "i < length ?b" "j < length (?b ! i)"
    using assms shape_length [OF assms(1)] shape_nth [OF assms(1), of i] by simp_all
  have sd: "shape ?d = shape img"
    using assms(1) by (simp add: cv_subtract_def shape_map2_rows)
  have ld: "i < length ?d" "j < length (?d ! i)"
    using assms shape_length [OF sd] shape_nth [OF sd, of i] by simp_all
  have d: "?d ! i ! j = saturate_cast (uint (img ! i ! j) - uint (?b ! i ! j))"
    unfolding cv_subtract_def using assms(2,3) lb by (simp only: nth_map2_rows)
  have "edge_sharpening GaussianBlur img ! i ! j =
          saturate_cast (uint (img ! i ! j) + uint (?d ! i ! j))"
    unfolding edge_sharpening_def Let_def cv_add_def using assms(2,3) ld
    by (simp only: nth_map2_rows)
  then have "uint (edge_sharpening GaussianBlur img ! i ! j) =
          max 0 (min 255 (uint (img ! i ! j) +
            max 0 (min 255 (uint (img ! i ! j) - uint (?b ! i ! j)))))"
    by (simp only: d uint_saturate_cast)
  also have "\<dots> = min 255 (uint (img ! i ! j) + max 0 (uint (img ! i ! j) - uint (?b ! i ! j)))"
    by (rule saturate_twice) (simp_all add: uint_pixel_le)
  finally show ?thesis .
qed

text \<open>
  Claim C6. Where the blurred image has the shape of the input, every pixel of the
  edge-sharpening output is the saturating sum of the original and the saturating difference
  of the original and the blurred value: the difference clipped below at 0, the sum clipped
  above at 255, neither wrapping; so every output pixel lies in \<open>[0, 255]\<close>.
\<close>

theorem edge_sharpening_saturating:
  assumes "shape (GaussianBlur img) = shape img" "i < length img" "j < length (img ! i)"
  shows "uint (edge_sharpening GaussianBlur img ! i ! j) =
           saturating_add (uint (img ! i ! j))
             (saturating_subtract (uint (img ! i ! j)) (uint (GaussianBlur img ! i ! j))) \<and>
         0 \<le> uint (edge_sharpening GaussianBlur img ! i ! j) \<and>
         uint (edge_sharpening GaussianBlur img ! i ! j) \<le> 255"
  using assms uint_edge_sharpening [of GaussianBlur img i j]
        uint_pixel_le [of "edge_sharpening GaussianBlur img ! i ! j"]
  by (simp add: saturating_add_def saturating_subtract_def)

theorem edge_sharpening_saturating_witness:
  "shape (map (map (\<lambda>p. 100)) [[90, 200], [250, 0 :: pixel]]) = shape [[90, 200], [250, 0]] \<and>
   (0 :: nat) < length [[90, 200], [250, 0 :: pixel]] \<and>
   (1 :: nat) < length ([[90, 200], [250, 0 :: pixel]] ! 0) \<and>
   uint (edge_sharpening (map (map (\<lambda>p. 100))) [[90, 200], [250, 0]] ! 0 ! 1) = 255"
proof -
  let ?img = "[[90, 200], [250, 0]] :: image"
  let ?blur = "map (map (\<lambda>p. 100)) :: image \<Rightarrow> image"
  have h: "shape (?blur ?img) = shape ?img" "0 < length ?img" "1 < length (?img ! 0)"
    by (simp_all add: shape_def)
  from edge_sharpening_saturating [of ?blur ?img 0 1, OF h] h show ?thesis
    by (simp add: saturating_add_def saturating_subtract_def)
qed

text \<open>
  Claim C9. Every pixel of the edge-sharpening output is at least the pixel of the input at
  the same position.
\<close>

theorem edge_sharpening_never_darkens:
  assumes "shape (GaussianBlur img) = shape img" "i < length img" "j < length (img ! i)"
  shows "img ! i ! j \<le> edge_sharpening GaussianBlur img ! i ! j"
  using assms uint_edge_sharpening [of GaussianBlur img i j] uint_pixel_le [of "img ! i ! j"]
  by (simp add: word_le_def)

theorem edge_sharpening_never_darkens_witness:
  "shape (map (map (\<lambda>p. 7)) [[1, 2, 3], [40, 50, 60 :: pixel]]) = shape [[1, 2, 3], [40, 50, 60]] \<and>
   (1 :: nat) < length [[1, 2, 3], [40, 50, 60 :: pixel]] \<and>
   (2 :: nat) < length ([[1, 2, 3], [40, 50, 60 :: pixel]] ! 1) \<and>
   (60 :: pixel) \<le> edge_sharpening (map (map (\<lambda>p. 7))) [[1, 2, 3], [40, 50, 60]] ! 1 ! 2"
proof -
  let ?img = "[[1, 2, 3], [40, 50, 60]] :: image"
  let ?blur = "map (map (\<lambda>p. 7)) :: image \<Rightarrow> image"
  have h: "shape (?blur ?img) = shape ?img" "1 < length ?img" "2 < length (?img ! 1)"
    by (simp_all add: shape_def)
  from edge_sharpening_never_darkens [of ?blur ?img 1 2, OF h] h show ?thesis by simp
qed

section \<open>Palette inversion\<close>

lemma uint_not_pixel: "uint (NOT p) = 255 - uint (p :: pixel)"
proof -
  have "uint (NOT p) = take_bit 8 (NOT (uint p))"
    using unsigned_not_eq [of p, where ?'a = int] by simp
  also have "NOT (uint p) = (255 - uint p) - 256"
    by (simp add: not_int_def)
  also have "take_bit 8 ((255 - uint p) - 256) = ((255 - uint p) - 256) mod 256"
    by (simp add: take_bit_eq_mod)
  also have "\<dots> = (255 - uint p) mod 256"
    by (rule minus_mod_self2)
  also have "\<dots> = 255 - uint p"
  proof (rule mod_pos_pos_trivial)
    show "0 \<le> 255 - uint p" using uint_pixel_le [of p] by simp
    have "0 \<le> uint p" by simp
    then show "255 - uint p < 256" by linarith
  qed
  finally show ?thesis .
qed

text \<open>
  Claim C7. Every pixel of the palette-optimization output is 255 minus the pixel of the
  input, and inverting twice gives the input back.
\<close>

theorem optimize_palette_inverts:
  "(\<forall>i < length img. \<forall>j < length (img ! i).
      uint (optimize_palette img ! i ! j) = 255 - uint (img ! i ! j)) \<and>
   optimize_palette (optimize_palette img) = img"
proof -
  have "map (map (\<lambda>p. NOT (NOT p))) img = img"
    by (simp add: map_idI)
  then show ?thesis by (simp add: optimize_palette_def uint_not_pixel comp_def)
qed

theorem optimize_palette_inverts_witness:
  "uint (optimize_palette [[90, 200]] ! 0 ! 1) = 55 \<and>
   optimize_palette (optimize_palette [[90, 200]]) = [[90, 200]]"
proof -
  let ?img = "[[90, 200]] :: image"
  from optimize_palette_inverts [of ?img] have
    a: "\<forall>i<length ?img. \<forall>j<length (?img ! i).
          uint (optimize_palette ?img ! i ! j) = 255 - uint (?img ! i ! j)"
    and b: "optimize_palette (optimize_palette ?img) = ?img"
    by blast+
  from a [rule_format, of 0 1] b show ?thesis by simp
qed

section \<open>Hoisting the remap table out of the pixel loop\<close>

lemma image_eqI:
  assumes "shape a = shape b"
    and "\<And>i j. i < length a \<Longrightarrow> j < length (a ! i) \<Longrightarrow> a ! i ! j = b ! i ! j"
  shows "a = b"
proof (rule nth_equalityI)
  show "length a = length b" using assms(1) by (rule shape_length)
next
  fix i
  assume i: "i < length a"
  show "a ! i = b ! i"
  proof (rule nth_equalityI)
    show "length (a ! i) = length (b ! i)" using assms(1) i by (rule shape_nth)
  next
    fix j
    assume "j < length (a ! i)"
    with i show "a ! i ! j = b ! i ! j" by (rule assms(2))
  qed
qed

lemma shape_enhance: "rectangular f \<Longrightarrow> shape (enhance c f) = shape f"
  by (simp add: enhance_def shape_row_loop shape_zeros_like)

lemma shape_enhance_hoisted: "shape (enhance_hoisted c f) = shape f"
  by (simp add: enhance_hoisted_def shape_def Let_def comp_def)

lemma nth_enhance:
  assumes "rectangular f" "i < rows f" "j < cols f"
  shows "enhance c f ! i ! j = table_entry c (plateau_histogram f) (f ! i ! j)"
proof -
  have "i < length (zeros_like f)" "j < length (zeros_like f ! i)"
    using assms by (simp_all add: zeros_like_def)
  then show ?thesis
    using assms unfolding enhance_def by (simp add: nth_row_loop)
qed

text \<open>
  Claim C8. The enhanced image of the loop that computes the remap table again for every
  pixel is the image obtained by computing the table once and looking every pixel up in it.
\<close>

theorem enhance_hoisting_equivalence:
  assumes "rectangular filtered_image"
  shows "enhance nan_cast filtered_image = enhance_hoisted nan_cast filtered_image"
proof (rule image_eqI)
  show "shape (enhance nan_cast filtered_image) = shape (enhance_hoisted nan_cast filtered_image)"
    using assms by (simp add: shape_enhance shape_enhance_hoisted)
next
  fix i j
  assume "i < length (enhance nan_cast filtered_image)"
    and "j < length (enhance nan_cast filtered_image ! i)"
  then have i: "i < rows filtered_image" and j': "j < length (filtered_image ! i)"
    using shape_length [OF shape_enhance [OF assms, of nan_cast]]
          shape_nth [OF shape_enhance [OF assms, of nan_cast], of i]
    by (simp_all add: rows_def)
  then have j: "j < cols filtered_image" using rectangular_nth [OF assms i] by simp
  have "enhance_hoisted nan_cast filtered_image ! i ! j =
          table_entry nan_cast (plateau_histogram filtered_image) (filtered_image ! i ! j)"
    using i j' by (simp add: enhance_hoisted_def Let_def rows_def)
  then show "enhance nan_cast filtered_image ! i ! j = enhance_hoisted nan_cast filtered_image ! i ! j"
    using nth_enhance [OF assms i j] by simp
qed

theorem enhance_hoisting_equivalence_witness:
  "rectangular [[0, 5, 0]] \<and> enhance 0 [[0, 5, 0]] = [[170, 255, 170]] \<and>
   enhance_hoisted 0 [[0, 5, 0]] = [[170, 255, 170]]"
proof -
  have r: "rectangular [[0, 5, 0]]" by (simp add: rectangular_def cols_def)
  have h: "enhance_hoisted 0 [[0, 5, 0]] = [[170, 255, 170]]" by code_simp
  from enhance_hoisting_equivalence [OF r, of 0] r h show ?thesis by simp
qed

end
